theory Spec2Isabelle
  imports Main
begin

section \<open>The scanner of EGRET (src/Scanner.cpp)\<close>

text \<open>
  The scanner turns the text of a regular expression into a vector of tokens
  (\<open>Scanner::init\<close>) and then offers a cursor over that vector together with two
  lookahead predicates (\<open>is_concat\<close>, \<open>is_char_range\<close>).  Each C++ function is
  translated into a HOL function of the same name.  An \<open>EgretException\<close> that the
  source throws is the \<open>Inl\<close> value of a sum type; the reference parameter \<open>idx\<close> is
  passed in and returned; the members \<open>tokens\<close>, \<open>index\<close> and the warning list are the
  fields of the record \<open>Scanner\<close>.
\<close>

subsection \<open>Data model\<close>

datatype TokenType =
    ALTERNATION | STAR | PLUS | QUESTION | REPEAT | LEFT_PAREN | RIGHT_PAREN
  | CHARACTER | CHAR_CLASS | LEFT_BRACKET | RIGHT_BRACKET | CARET | DOLLAR
  | WORD_BOUNDARY | HYPHEN | NO_GROUP_EXT | NAMED_GROUP_EXT | IGNORED_EXT | ERR

record Token =
  type :: TokenType
  character :: char
  repeat_lower :: int
  repeat_upper :: int

text \<open>
  \<open>Token token;\<close> leaves every field of the structure indeterminate in C++.  The model
  gives a fresh token fixed placeholder values; the theorems below only speak about
  fields that the source has written on the path in question.
\<close>

definition new_Token :: Token where
  "new_Token = \<lparr>type = ERR, character = CHR 0x00, repeat_lower = 0, repeat_upper = 0\<rparr>"

text \<open>
  The messages of the exceptions thrown by the scanner, one constructor per message
  text, with the values that the source inserts into the text as arguments.
\<close>

datatype EgretException =
    InputEndedPrematurely
  | UnsupportedCharacter char
  | UnsupportedBackreference char
  | UnsupportedOctalValue int
  | UnsupportedHexNumber int
  | InvalidHexDigit char
  | UnsupportedHexValue int
  | UnsupportedNamedBackreference
  | ImproperNamedGroup
  | UnsupportedExtension char
  | UnsupportedLookbehindExtension char
  | PointlessRepeat0
  | InvalidRepeatBounds int int
  | PointlessRepeat00
  | ImproperRange char char
  | RangeUsingCharClass

record Scanner =
  tokens :: "Token list"
  index :: nat
  warnings :: "string list"

text \<open>
  Modelled from the spec: \<open>addWarning\<close> is declared outside Scanner.cpp; the warning
  channel is "an append-only accumulator of message strings" that "does not affect
  control flow".
\<close>

definition addWarning :: "string \<Rightarrow> string list \<Rightarrow> string list" where
  "addWarning w ws = ws @ [w]"

subsection \<open>Characters and numbers\<close>

text \<open>
  The value of a \<open>char\<close> in integer arithmetic and comparisons.  Plain \<open>char\<close> is taken
  to be signed, as on x86; for the comparisons against ASCII constants made by the
  scanner the signedness makes no difference.
\<close>

definition char_int :: "char \<Rightarrow> int" where
  "char_int c = (if (of_char c :: nat) < 128 then int (of_char c) else int (of_char c) - 256)"

definition isdigit :: "char \<Rightarrow> bool" where
  "isdigit c \<longleftrightarrow> 48 \<le> char_int c \<and> char_int c \<le> 57"

definition INT_MAX :: int where
  "INT_MAX = 2147483647"

text \<open>
  \<open>stringstream ss(count_str); ss >> n\<close> on a non-empty string of decimal digits: the
  decimal value, and \<open>INT_MAX\<close> when the value does not fit an \<open>int\<close> (the C++11 rule for
  \<open>num_get\<close>).
\<close>

definition decimal_value :: "string \<Rightarrow> int" where
  "decimal_value s = foldl (\<lambda>v c. 10 * v + (char_int c - 48)) 0 s"

definition extract_int :: "string \<Rightarrow> int" where
  "extract_int s = min (decimal_value s) INT_MAX"

subsection \<open>The bounds-checked next character\<close>

definition get_next_char :: "string \<Rightarrow> nat \<Rightarrow> EgretException + (char \<times> nat)" where
  "get_next_char inp idx =
     (if idx + 1 \<ge> length inp then Inl InputEndedPrematurely
      else Inr (inp ! (idx + 1), idx + 1))"

lemma get_next_char_Inr:
  "get_next_char inp idx = Inr (c, idx') \<Longrightarrow> idx' = idx + 1 \<and> idx' < length inp \<and> c = inp ! idx'"
  by (auto simp: get_next_char_def split: if_splits)

subsection \<open>Repeat quantifiers\<close>

text \<open>
  The loop \<open>while (isdigit(c)) { count_str += c; c = get_next_char(in, idx); }\<close>.
\<close>

function read_digits :: "string \<Rightarrow> nat \<Rightarrow> string \<Rightarrow> char \<Rightarrow> EgretException + (string \<times> char \<times> nat)" where
  "read_digits inp idx count_str c =
     (if isdigit c then
        (case get_next_char inp idx of
           Inl e \<Rightarrow> Inl e
         | Inr (c', idx') \<Rightarrow> read_digits inp idx' (count_str @ [c]) c')
      else Inr (count_str, c, idx))"
  by pat_completeness auto
termination
  by (relation "measure (\<lambda>(inp, idx, count_str, c). length inp - idx)")
     (auto dest!: get_next_char_Inr)

declare read_digits.simps [simp del]

definition process_repeat :: "string \<Rightarrow> nat \<Rightarrow> EgretException + (Token \<times> nat)" where
  "process_repeat inp idx =
     (let current_idx = idx;
          token = new_Token\<lparr>type := CHARACTER, character := CHR ''{''\<rparr>
      in case get_next_char inp idx of
           Inl e \<Rightarrow> Inl e
         | Inr (c0, idx0) \<Rightarrow>
      (case read_digits inp idx0 [] c0 of
           Inl e \<Rightarrow> Inl e
         | Inr (count_str, c, idx1) \<Rightarrow>
      if c = CHR '','' then
        (let token1 = (if count_str = [] then token\<lparr>repeat_lower := - 1\<rparr>
                       else token\<lparr>repeat_lower := extract_int count_str\<rparr>)
         in case get_next_char inp idx1 of
              Inl e \<Rightarrow> Inl e
            | Inr (c2, idx2) \<Rightarrow>
         (case read_digits inp idx2 [] c2 of
              Inl e \<Rightarrow> Inl e
            | Inr (count_str2, c3, idx3) \<Rightarrow>
         if c3 = CHR ''}'' then
           (let token2 = (if count_str2 = [] then token1\<lparr>repeat_upper := - 1\<rparr>
                          else token1\<lparr>repeat_upper := extract_int count_str2\<rparr>)
            in if repeat_lower token2 = - 1 \<and> repeat_upper token2 = - 1
               then Inr (token2, current_idx)
               else
                 (let token3 = (if repeat_lower token2 = - 1
                                then token2\<lparr>repeat_lower := 0\<rparr> else token2)
                  in if repeat_upper token3 = - 1 then Inr (token3\<lparr>type := REPEAT\<rparr>, idx3)
                     else if repeat_lower token3 > repeat_upper token3
                     then Inl (InvalidRepeatBounds (repeat_lower token3) (repeat_upper token3))
                     else if repeat_upper token3 = 0 then Inl PointlessRepeat00
                     else Inr (token3\<lparr>type := REPEAT\<rparr>, idx3)))
         else Inr (token1, current_idx)))
      else if c = CHR ''}'' then
        (if count_str = [] then Inr (token, current_idx)
         else
           (let n = extract_int count_str;
                token1 = token\<lparr>repeat_lower := n, repeat_upper := n, type := REPEAT\<rparr>
            in if repeat_upper token1 = 0 then Inl PointlessRepeat0
               else Inr (token1, idx1)))
      else Inr (token, current_idx)))"

subsection \<open>Octal and hexadecimal escapes\<close>

definition process_octal :: "string \<Rightarrow> nat \<Rightarrow> char \<Rightarrow> EgretException + (Token \<times> nat)" where
  "process_octal inp idx first_digit =
     (let only_one_digit =
            (if idx + 1 \<ge> length inp then True
             else char_int (inp ! (idx + 1)) < 48 \<or> char_int (inp ! (idx + 1)) > 55)
      in if only_one_digit then
           (if first_digit = CHR ''0'' then Inl (UnsupportedCharacter (CHR ''0''))
            else Inl (UnsupportedBackreference first_digit))
         else
           (let second_digit = inp ! (idx + 1);
                has_three_digits =
                  (idx + 2 < length inp \<and>
                   char_int (inp ! (idx + 2)) \<ge> 48 \<and> char_int (inp ! (idx + 2)) \<le> 55);
                octal_value =
                  (if has_three_digits
                   then (char_int first_digit - 48) * 64 + (char_int second_digit - 48) * 8
                        + (char_int (inp ! (idx + 2)) - 48)
                   else (char_int first_digit - 48) * 8 + (char_int second_digit - 48));
                idx' = (if has_three_digits then idx + 2 else idx + 1)
            in if octal_value < 32 \<or> octal_value > 126
               then Inl (UnsupportedOctalValue octal_value)
               else Inr (new_Token\<lparr>type := CHARACTER, character := char_of octal_value\<rparr>, idx')))"

text \<open>
  The loop \<open>for (int i = 2; i < num_digits; i++)\<close> of \<open>process_hex\<close>, which reads the
  digits to the left of the last two.
\<close>

function hex_extra_digits :: "string \<Rightarrow> nat \<Rightarrow> int \<Rightarrow> int \<Rightarrow> EgretException + nat" where
  "hex_extra_digits inp idx i num_digits =
     (if i < num_digits then
        (case get_next_char inp idx of
           Inl e \<Rightarrow> Inl e
         | Inr (d, idx') \<Rightarrow>
             if d \<noteq> CHR ''0'' then Inl (UnsupportedHexNumber num_digits)
             else hex_extra_digits inp idx' (i + 1) num_digits)
      else Inr idx)"
  by pat_completeness auto
termination
  by (relation "measure (\<lambda>(inp, idx, i, num_digits). nat (num_digits - i))") auto

declare hex_extra_digits.simps [simp del]

text \<open>
  The value of one hexadecimal digit as \<open>process_hex\<close> computes it: \<open>None\<close> is the
  branch that throws "Invalid hex digit".
\<close>

definition hex_digit :: "char \<Rightarrow> int option" where
  "hex_digit d =
     (if char_int d \<ge> 48 \<and> char_int d \<le> 57 then Some (char_int d - 48)
      else if char_int d \<ge> 65 \<and> char_int d \<le> 70 then Some (char_int d - 65 + 10)
      else if char_int d \<ge> 97 \<and> char_int d \<le> 102 then Some (char_int d - 97 + 10)
      else None)"

definition process_hex :: "string \<Rightarrow> nat \<Rightarrow> int \<Rightarrow> EgretException + (Token \<times> nat)" where
  "process_hex inp idx num_digits =
     (case hex_extra_digits inp idx 2 num_digits of
        Inl e \<Rightarrow> Inl e
      | Inr idx0 \<Rightarrow>
     (case get_next_char inp idx0 of
        Inl e \<Rightarrow> Inl e
      | Inr (first_digit, idx1) \<Rightarrow>
     (case get_next_char inp idx1 of
        Inl e \<Rightarrow> Inl e
      | Inr (second_digit, idx2) \<Rightarrow>
     (case hex_digit first_digit of
        None \<Rightarrow> Inl (InvalidHexDigit first_digit)
      | Some h1 \<Rightarrow>
     (case hex_digit second_digit of
        None \<Rightarrow> Inl (InvalidHexDigit second_digit)
      | Some h2 \<Rightarrow>
         (let hex_value = h1 * 16 + h2
          in if hex_value < 32 \<or> hex_value > 126 then Inl (UnsupportedHexValue hex_value)
             else Inr (new_Token\<lparr>type := CHARACTER, character := char_of hex_value\<rparr>, idx2)))))))"

subsection \<open>Group extensions\<close>

text \<open>The loop \<open>while (c != '>') c = get_next_char(in, idx);\<close> of \<open>process_extension\<close>.\<close>

function skip_group_name :: "string \<Rightarrow> nat \<Rightarrow> char \<Rightarrow> EgretException + nat" where
  "skip_group_name inp idx c =
     (if c \<noteq> CHR ''>'' then
        (case get_next_char inp idx of
           Inl e \<Rightarrow> Inl e
         | Inr (c', idx') \<Rightarrow> skip_group_name inp idx' c')
      else Inr idx)"
  by pat_completeness auto
termination
  by (relation "measure (\<lambda>(inp, idx, c). length inp - idx)")
     (auto dest!: get_next_char_Inr)

declare skip_group_name.simps [simp del]

definition process_extension ::
  "string \<Rightarrow> nat \<Rightarrow> string list \<Rightarrow> EgretException + (Token \<times> nat \<times> string list)" where
  "process_extension inp idx ws =
     (case get_next_char inp idx of
        Inl e \<Rightarrow> Inl e
      | Inr (ext, idx1) \<Rightarrow>
          if ext = CHR '':'' then Inr (new_Token\<lparr>type := NO_GROUP_EXT\<rparr>, idx1, ws)
          else if ext = CHR ''P'' then
            (case get_next_char inp idx1 of
               Inl e \<Rightarrow> Inl e
             | Inr (c, idx2) \<Rightarrow>
                 if c = CHR ''='' then Inl UnsupportedNamedBackreference
                 else if c \<noteq> CHR ''<'' then Inl ImproperNamedGroup
                 else (case skip_group_name inp idx2 c of
                         Inl e \<Rightarrow> Inl e
                       | Inr idx3 \<Rightarrow> Inr (new_Token\<lparr>type := NAMED_GROUP_EXT\<rparr>, idx3, ws)))
          else if ext = CHR ''#'' \<or> ext = CHR ''='' \<or> ext = CHR ''!'' then
            Inr (new_Token\<lparr>type := IGNORED_EXT\<rparr>, idx1,
                 addWarning (''Regex contains ignored extension ?'' @ [ext]) ws)
          else if ext = CHR ''<'' then
            (case get_next_char inp idx1 of
               Inl e \<Rightarrow> Inl e
             | Inr (c, idx2) \<Rightarrow>
                 if c = CHR ''='' \<or> c = CHR ''!'' then
                   Inr (new_Token\<lparr>type := IGNORED_EXT\<rparr>, idx2,
                        addWarning (''Regex contains ignored extension ?<'' @ [c]) ws)
                 else Inl (UnsupportedLookbehindExtension c))
          else Inl (UnsupportedExtension ext))"

subsection \<open>The token stream cursor and the lookahead predicates\<close>

text \<open>
  What can go wrong when the finished stream is read: an exception, a failed \<open>assert\<close>,
  or \<open>tokens[i]\<close> with \<open>i\<close> outside the vector (undefined behaviour in C++, a fault of
  its own in the model).
\<close>

datatype fault = Thrown EgretException | AssertionFailure | OutOfBounds

definition token_at :: "Token list \<Rightarrow> int \<Rightarrow> fault + Token" where
  "token_at ts i = (if 0 \<le> i \<and> i < int (length ts) then Inr (ts ! nat i) else Inl OutOfBounds)"

definition get_type :: "Scanner \<Rightarrow> TokenType" where
  "get_type sc = (if index sc < length (tokens sc) then type (tokens sc ! index sc) else ERR)"

definition get_repeat_lower :: "Scanner \<Rightarrow> fault + int" where
  "get_repeat_lower sc =
     (if get_type sc = REPEAT then Inr (repeat_lower (tokens sc ! index sc))
      else Inl AssertionFailure)"

definition get_repeat_upper :: "Scanner \<Rightarrow> fault + int" where
  "get_repeat_upper sc =
     (if get_type sc = REPEAT then Inr (repeat_upper (tokens sc ! index sc))
      else Inl AssertionFailure)"

definition get_character :: "Scanner \<Rightarrow> fault + char" where
  "get_character sc =
     (if get_type sc = CHARACTER \<or> get_type sc = CHAR_CLASS
      then Inr (character (tokens sc ! index sc))
      else Inl AssertionFailure)"

definition advance :: "Scanner \<Rightarrow> Scanner" where
  "advance sc = sc\<lparr>index := index sc + 1\<rparr>"

text \<open>
  \<open>is_concat\<close> begins with \<open>tokens[index - 1].type\<close>; for \<open>index = 0\<close> the subscript is
  one before the start of the vector (or wraps, if \<open>index\<close> is unsigned), in both cases
  outside the vector.
\<close>

definition is_concat :: "Scanner \<Rightarrow> fault + bool" where
  "is_concat sc =
     (case token_at (tokens sc) (int (index sc) - 1) of
        Inl f \<Rightarrow> Inl f
      | Inr prev \<Rightarrow>
          (let prev_type = type prev;
               next_type = get_type sc
           in if index sc \<ge> length (tokens sc) then Inr False
              else
                (let valid_prev_type =
                       (prev_type = STAR \<or> prev_type = PLUS \<or> prev_type = QUESTION \<or>
                        prev_type = REPEAT \<or> prev_type = RIGHT_PAREN \<or>
                        prev_type = CHARACTER \<or> prev_type = CARET \<or> prev_type = DOLLAR \<or>
                        prev_type = WORD_BOUNDARY \<or> prev_type = CHAR_CLASS \<or>
                        prev_type = RIGHT_BRACKET);
                     invalid_next_type =
                       (next_type = ALTERNATION \<or> next_type = STAR \<or> next_type = PLUS \<or>
                        next_type = QUESTION \<or> next_type = REPEAT \<or>
                        next_type = RIGHT_PAREN \<or> next_type = RIGHT_BRACKET)
                 in Inr (valid_prev_type \<and> \<not> invalid_next_type))))"

text \<open>
  \<open>tokens.size() - 3\<close> is computed in \<open>size_t\<close> (64 bits), so it wraps around when the
  vector has fewer than three elements; \<open>index\<close> is converted to \<open>size_t\<close> for the
  comparison.  The conditions of the \<open>if\<close> cascade are evaluated left to right, and the
  right operand of \<open>&&\<close> only when the left one holds.
\<close>

definition size_t_sub :: "nat \<Rightarrow> nat \<Rightarrow> int" where
  "size_t_sub a b = (int a - int b) mod 2 ^ 64"

definition is_char_range :: "Scanner \<Rightarrow> fault + bool" where
  "is_char_range sc =
     (let ts = tokens sc; i = int (index sc)
      in if i > size_t_sub (length ts) 3 then Inr False
         else
           (case token_at ts (i + 1) of
              Inl f \<Rightarrow> Inl f
            | Inr t1 \<Rightarrow>
                if type t1 \<noteq> HYPHEN then Inr False
                else
                  (case token_at ts i of
                     Inl f \<Rightarrow> Inl f
                   | Inr t0 \<Rightarrow>
                       if type t0 = CHARACTER then
                         (case token_at ts (i + 2) of
                            Inl f \<Rightarrow> Inl f
                          | Inr t2 \<Rightarrow>
                              if type t2 = CHARACTER then
                                (if char_int (character t0) > char_int (character t2)
                                 then Inl (Thrown (ImproperRange (character t0) (character t2)))
                                 else Inr True)
                              else if type t2 = CHAR_CLASS then Inl (Thrown RangeUsingCharClass)
                              else Inr False)
                       else if type t0 = CHAR_CLASS then
                         (case token_at ts (i + 2) of
                            Inl f \<Rightarrow> Inl f
                          | Inr t2 \<Rightarrow>
                              if type t2 = CHARACTER then Inl (Thrown RangeUsingCharClass)
                              else if type t2 = CHAR_CLASS then Inl (Thrown RangeUsingCharClass)
                              else Inr False)
                       else Inr False)))"

subsection \<open>The tokenizer driver\<close>

text \<open>
  The inner \<open>switch (c)\<close> of the case \<open>'\\'\<close> of \<open>Scanner::init\<close>.  \<open>CHR 0x5C\<close> is the
  backslash, \<open>CHR 0x27\<close> the single and \<open>CHR 0x22\<close> the double quote.
\<close>

definition init_backslash ::
  "string \<Rightarrow> nat \<Rightarrow> bool \<Rightarrow> string list \<Rightarrow> EgretException + (Token \<times> nat \<times> string list)" where
  "init_backslash inp idx in_set ws =
     (case get_next_char inp idx of
        Inl e \<Rightarrow> Inl e
      | Inr (c, idx1) \<Rightarrow>
          if c \<in> set ''dDwWsS'' then
            Inr (new_Token\<lparr>type := CHAR_CLASS, character := c\<rparr>, idx1, ws)
          else if c = CHR ''A'' then Inr (new_Token\<lparr>type := CARET\<rparr>, idx1, ws)
          else if c = CHR ''Z'' then Inr (new_Token\<lparr>type := DOLLAR\<rparr>, idx1, ws)
          else if c = CHR ''b'' then
            (if in_set then Inl (UnsupportedCharacter (CHR ''b''))
             else Inr (new_Token\<lparr>type := WORD_BOUNDARY\<rparr>, idx1,
                       addWarning (''Regex contains ignored '' @ [CHR 0x5C, CHR ''b'']) ws))
          else if c = CHR ''B'' then
            Inr (new_Token\<lparr>type := WORD_BOUNDARY\<rparr>, idx1,
                 addWarning (''Regex contains ignored '' @ [CHR 0x5C, CHR ''B'']) ws)
          else if c \<in> set ''afnrtvp'' then Inl (UnsupportedCharacter c)
          else if c = CHR 0x5C then
            Inr (new_Token\<lparr>type := CHARACTER, character := CHR 0x5C\<rparr>, idx1, ws)
          else if c = CHR 0x27 then
            Inr (new_Token\<lparr>type := CHARACTER, character := CHR 0x27\<rparr>, idx1, ws)
          else if c = CHR 0x22 then
            Inr (new_Token\<lparr>type := CHARACTER, character := CHR 0x22\<rparr>, idx1, ws)
          else if c \<in> set ''0123456789'' then
            (case process_octal inp idx1 c of
               Inl e \<Rightarrow> Inl e | Inr (token, idx2) \<Rightarrow> Inr (token, idx2, ws))
          else if c = CHR ''x'' then
            (case process_hex inp idx1 2 of
               Inl e \<Rightarrow> Inl e | Inr (token, idx2) \<Rightarrow> Inr (token, idx2, ws))
          else if c = CHR ''u'' then
            (case process_hex inp idx1 4 of
               Inl e \<Rightarrow> Inl e | Inr (token, idx2) \<Rightarrow> Inr (token, idx2, ws))
          else if c = CHR ''U'' then
            (case process_hex inp idx1 8 of
               Inl e \<Rightarrow> Inl e | Inr (token, idx2) \<Rightarrow> Inr (token, idx2, ws))
          else Inr (new_Token\<lparr>type := CHARACTER, character := c\<rparr>, idx1, ws))"

text \<open>
  The body of the \<open>switch (in[idx])\<close> of \<open>Scanner::init\<close>: from the input, the position,
  the set flag, the tokens pushed so far and the warnings, the token of this iteration
  with the new position, set flag and warnings.
\<close>

definition init_switch ::
  "string \<Rightarrow> nat \<Rightarrow> bool \<Rightarrow> Token list \<Rightarrow> string list
     \<Rightarrow> EgretException + (Token \<times> nat \<times> bool \<times> string list)" where
  "init_switch inp idx in_set toks ws =
     (let c = inp ! idx;
          lit = new_Token\<lparr>type := CHARACTER, character := c\<rparr>;
          lazy = (\<not> in_set \<and> idx + 1 < length inp \<and> inp ! (idx + 1) = CHR ''?'')
      in
      if c = CHR 0x5C then
        (case init_backslash inp idx in_set ws of
           Inl e \<Rightarrow> Inl e
         | Inr (token, idx', ws') \<Rightarrow> Inr (token, idx', in_set, ws'))
      else if c = CHR ''['' then
        (if in_set then Inr (lit, idx, in_set, ws)
         else Inr (new_Token\<lparr>type := LEFT_BRACKET\<rparr>, idx, True, ws))
      else if c = CHR '']'' then
        (if in_set \<and> toks \<noteq> [] \<and> type (last toks) = LEFT_BRACKET then Inr (lit, idx, in_set, ws)
         else if in_set then Inr (new_Token\<lparr>type := RIGHT_BRACKET\<rparr>, idx, False, ws)
         else Inr (lit, idx, in_set, ws))
      else if c = CHR ''-'' then
        (if in_set \<and> toks \<noteq> [] \<and> type (last toks) = LEFT_BRACKET then Inr (lit, idx, in_set, ws)
         else if in_set \<and> idx + 1 < length inp \<and> inp ! (idx + 1) = CHR '']''
         then Inr (lit, idx, in_set, ws)
         else if in_set then Inr (new_Token\<lparr>type := HYPHEN\<rparr>, idx, in_set, ws)
         else Inr (lit, idx, in_set, ws))
      else if c = CHR ''|'' then
        (if in_set then Inr (lit, idx, in_set, ws)
         else Inr (new_Token\<lparr>type := ALTERNATION\<rparr>, idx, in_set, ws))
      else if c = CHR ''*'' then
        (if in_set then Inr (lit, idx, in_set, ws)
         else if lazy then Inr (new_Token\<lparr>type := STAR\<rparr>, idx + 1, in_set, ws)
         else Inr (new_Token\<lparr>type := STAR\<rparr>, idx, in_set, ws))
      else if c = CHR ''+'' then
        (if in_set then Inr (lit, idx, in_set, ws)
         else if lazy then Inr (new_Token\<lparr>type := PLUS\<rparr>, idx + 1, in_set, ws)
         else Inr (new_Token\<lparr>type := PLUS\<rparr>, idx, in_set, ws))
      else if c = CHR ''?'' then
        (if toks \<noteq> [] \<and> type (last toks) = LEFT_PAREN then
           (case process_extension inp idx ws of
              Inl e \<Rightarrow> Inl e
            | Inr (token, idx', ws') \<Rightarrow> Inr (token, idx', in_set, ws'))
         else if in_set then Inr (lit, idx, in_set, ws)
         else if lazy then Inr (new_Token\<lparr>type := QUESTION\<rparr>, idx + 1, in_set, ws)
         else Inr (new_Token\<lparr>type := QUESTION\<rparr>, idx, in_set, ws))
      else if c = CHR ''('' then
        (if in_set then Inr (lit, idx, in_set, ws)
         else Inr (new_Token\<lparr>type := LEFT_PAREN\<rparr>, idx, in_set, ws))
      else if c = CHR '')'' then
        (if in_set then Inr (lit, idx, in_set, ws)
         else Inr (new_Token\<lparr>type := RIGHT_PAREN\<rparr>, idx, in_set, ws))
      else if c = CHR ''.'' then
        (if in_set then Inr (lit, idx, in_set, ws)
         else Inr (new_Token\<lparr>type := CHAR_CLASS, character := c\<rparr>, idx, in_set, ws))
      else if c = CHR ''{'' then
        (if in_set then Inr (lit, idx, in_set, ws)
         else
           (case process_repeat inp idx of
              Inl e \<Rightarrow> Inl e
            | Inr (token, idx') \<Rightarrow>
                if type token \<noteq> CHARACTER \<and> idx' + 1 < length inp \<and> inp ! (idx' + 1) = CHR ''?''
                then Inr (token, idx' + 1, in_set, ws)
                else Inr (token, idx', in_set, ws)))
      else if c = CHR ''^'' then Inr (new_Token\<lparr>type := CARET\<rparr>, idx, in_set, ws)
      else if c = CHR ''$'' then Inr (new_Token\<lparr>type := DOLLAR\<rparr>, idx, in_set, ws)
      else Inr (lit, idx, in_set, ws))"

text \<open>
  Every sub-parser hands back a position that is not before the one it was given, so that
  each iteration of the loop of \<open>Scanner::init\<close> moves forward; this is what makes the
  loop terminate.
\<close>

lemma read_digits_idx:
  "read_digits inp idx cs c = Inr (cs', c', idx') \<Longrightarrow> idx \<le> idx'"
proof (induction inp idx cs c rule: read_digits.induct)
  case (1 inp idx count_str c)
  show ?case
  proof (cases "isdigit c")
    case True
    with "1.prems" obtain d j where g: "get_next_char inp idx = Inr (d, j)"
      and r: "read_digits inp j (count_str @ [c]) d = Inr (cs', c', idx')"
      by (subst (asm) read_digits.simps) (auto split: sum.splits)
    from "1.IH" [OF True g refl r] get_next_char_Inr [OF g]
    show ?thesis by simp
  next
    case False
    with "1.prems" show ?thesis by (subst (asm) read_digits.simps) simp
  qed
qed

lemma hex_extra_digits_idx:
  "hex_extra_digits inp idx i n = Inr idx' \<Longrightarrow> idx \<le> idx'"
proof (induction inp idx i n rule: hex_extra_digits.induct)
  case (1 inp idx i n)
  show ?case
  proof (cases "i < n")
    case True
    with "1.prems" obtain d j where g: "get_next_char inp idx = Inr (d, j)"
      and z: "\<not> d \<noteq> CHR ''0''"
      and r: "hex_extra_digits inp j (i + 1) n = Inr idx'"
      by (subst (asm) hex_extra_digits.simps) (auto split: sum.splits if_splits)
    from "1.IH" [OF True g refl z r] get_next_char_Inr [OF g]
    show ?thesis by simp
  next
    case False
    with "1.prems" show ?thesis by (subst (asm) hex_extra_digits.simps) simp
  qed
qed

lemma skip_group_name_idx:
  "skip_group_name inp idx c = Inr idx' \<Longrightarrow> idx \<le> idx'"
proof (induction inp idx c rule: skip_group_name.induct)
  case (1 inp idx c)
  show ?case
  proof (cases "c \<noteq> CHR ''>''")
    case True
    with "1.prems" obtain d j where g: "get_next_char inp idx = Inr (d, j)"
      and r: "skip_group_name inp j d = Inr idx'"
      by (subst (asm) skip_group_name.simps) (auto split: sum.splits)
    from "1.IH" [OF True g refl r] get_next_char_Inr [OF g]
    show ?thesis by simp
  next
    case False
    with "1.prems" show ?thesis by (subst (asm) skip_group_name.simps) simp
  qed
qed

lemma process_repeat_idx:
  "process_repeat inp idx = Inr (t, idx') \<Longrightarrow> idx \<le> idx'"
  unfolding process_repeat_def Let_def
  by (auto split: sum.splits if_splits dest!: get_next_char_Inr read_digits_idx)

lemma process_octal_idx:
  "process_octal inp idx c = Inr (t, idx') \<Longrightarrow> idx \<le> idx'"
  unfolding process_octal_def Let_def
  by (auto split: if_splits)

lemma process_hex_idx:
  "process_hex inp idx n = Inr (t, idx') \<Longrightarrow> idx \<le> idx'"
  unfolding process_hex_def Let_def
  by (auto split: sum.splits option.splits if_splits dest!: get_next_char_Inr hex_extra_digits_idx)

lemma process_extension_idx:
  "process_extension inp idx ws = Inr (t, idx', ws') \<Longrightarrow> idx \<le> idx'"
  unfolding process_extension_def
  by (auto split: sum.splits if_splits dest!: get_next_char_Inr skip_group_name_idx)

lemma init_backslash_idx:
  "init_backslash inp idx in_set ws = Inr (t, idx', ws') \<Longrightarrow> idx \<le> idx'"
  unfolding init_backslash_def
  by (auto split: sum.splits if_splits dest!: get_next_char_Inr process_octal_idx process_hex_idx)

lemma init_switch_idx:
  "init_switch inp idx in_set toks ws = Inr (t, idx', in_set', ws') \<Longrightarrow> idx \<le> idx'"
  unfolding init_switch_def Let_def
  by (auto split: sum.splits if_splits
      dest!: init_backslash_idx process_extension_idx process_repeat_idx)

text \<open>
  The loop \<open>while (idx < in.length())\<close> of \<open>Scanner::init\<close>: one iteration runs the
  switch, pushes the token and increments \<open>idx\<close>.
\<close>

function init_loop :: "string \<Rightarrow> nat \<Rightarrow> bool \<Rightarrow> Scanner \<Rightarrow> EgretException + Scanner" where
  "init_loop inp idx in_set sc =
     (if idx < length inp then
        (case init_switch inp idx in_set (tokens sc) (warnings sc) of
           Inl e \<Rightarrow> Inl e
         | Inr (token, idx', in_set', ws) \<Rightarrow>
             init_loop inp (idx' + 1) in_set'
               (sc\<lparr>tokens := tokens sc @ [token], warnings := ws\<rparr>))
      else Inr sc)"
  by pat_completeness auto
termination
  by (relation "measure (\<lambda>(inp, idx, in_set, sc). length inp - idx)")
     (auto dest!: init_switch_idx)

declare init_loop.simps [simp del]

definition init :: "string \<Rightarrow> Scanner \<Rightarrow> EgretException + Scanner" where
  "init inp sc =
     (case init_loop inp 0 False sc of
        Inl e \<Rightarrow> Inl e
      | Inr sc' \<Rightarrow> Inr (sc'\<lparr>index := 0\<rparr>))"

text \<open>A scanner before \<open>init\<close>: no tokens, no warnings.\<close>

definition new_Scanner :: Scanner where
  "new_Scanner = \<lparr>tokens = [], index = 0, warnings = []\<rparr>"

definition scan :: "string \<Rightarrow> EgretException + Scanner" where
  "scan inp = init inp new_Scanner"

text \<open>
  Scanning a pattern and then reading the scanner with \<open>f\<close>; an exception of the scan
  is passed on.
\<close>

definition on_scan :: "string \<Rightarrow> (Scanner \<Rightarrow> 'a) \<Rightarrow> EgretException + 'a" where
  "on_scan p f = (case scan p of Inl e \<Rightarrow> Inl e | Inr sc \<Rightarrow> Inr (f sc))"

section \<open>Auxiliary facts about the sub-parsers and the driver\<close>

text \<open>
  What the bounds of a token must satisfy if it is a \<open>REPEAT\<close> token: the lower bound is
  not negative, and the upper bound is either the value \<open>-1\<close>, which the source stores
  for "no upper bound", or at least one and at least the lower bound.
\<close>

definition repeat_ok :: "Token \<Rightarrow> bool" where
  "repeat_ok t \<longleftrightarrow>
     (type t = REPEAT \<longrightarrow>
        0 \<le> repeat_lower t \<and>
        (repeat_upper t = - 1 \<or> (1 \<le> repeat_upper t \<and> repeat_lower t \<le> repeat_upper t)))"

lemma decimal_value_nonneg_aux:
  "0 \<le> v \<Longrightarrow> \<forall>c\<in>set s. isdigit c \<Longrightarrow> 0 \<le> foldl (\<lambda>v c. 10 * v + (char_int c - 48)) v s"
  by (induction s arbitrary: v) (auto simp: isdigit_def)

lemma extract_int_nonneg: "\<forall>c\<in>set s. isdigit c \<Longrightarrow> 0 \<le> extract_int s"
  using decimal_value_nonneg_aux [of 0 s]
  by (simp add: extract_int_def decimal_value_def INT_MAX_def)

lemma read_digits_digits:
  "read_digits inp idx cs c = Inr (cs', c', idx') \<Longrightarrow> \<forall>x\<in>set cs. isdigit x
     \<Longrightarrow> \<forall>x\<in>set cs'. isdigit x"
proof (induction inp idx cs c rule: read_digits.induct)
  case (1 inp idx count_str c)
  show ?case
  proof (cases "isdigit c")
    case True
    with "1.prems" obtain d j where g: "get_next_char inp idx = Inr (d, j)"
      and r: "read_digits inp j (count_str @ [c]) d = Inr (cs', c', idx')"
      by (subst (asm) read_digits.simps) (auto split: sum.splits)
    from "1.prems"(2) True have "\<forall>x\<in>set (count_str @ [c]). isdigit x" by simp
    with "1.IH" [OF True g refl r] show ?thesis .
  next
    case False
    with "1.prems" show ?thesis by (subst (asm) read_digits.simps) simp
  qed
qed

lemma process_repeat_type:
  "process_repeat inp idx = Inr (t, idx') \<Longrightarrow> type t = CHARACTER \<or> type t = REPEAT"
  unfolding process_repeat_def Let_def
  by (auto split: sum.splits if_splits)

lemma process_repeat_ok:
  assumes "process_repeat inp idx = Inr (t, idx')"
  shows "repeat_ok t"
proof -
  have d: "read_digits inp i [] c = Inr (cs, c', i') \<Longrightarrow> 0 \<le> extract_int cs" for i c cs c' i'
    using read_digits_digits [of inp i "[]" c cs c' i'] extract_int_nonneg by simp
  from assms show ?thesis
    unfolding process_repeat_def Let_def repeat_ok_def
    by (auto split: sum.splits if_splits prod.splits simp: new_Token_def dest: d)
qed



lemma process_octal_type:
  "process_octal inp idx c = Inr (t, idx') \<Longrightarrow> type t = CHARACTER"
  unfolding process_octal_def Let_def by (auto split: if_splits)

lemma process_hex_type:
  "process_hex inp idx n = Inr (t, idx') \<Longrightarrow> type t = CHARACTER"
  unfolding process_hex_def Let_def by (auto split: sum.splits option.splits if_splits)

lemma process_extension_type:
  "process_extension inp idx ws = Inr (t, idx', ws') \<Longrightarrow> type t \<noteq> REPEAT"
  unfolding process_extension_def by (auto split: sum.splits if_splits)

definition escape_letters :: string where
  "escape_letters = ''dDwWsSAZbBafnrtvp0123456789xuU'' @ [CHR 0x5C, CHR 0x27, CHR 0x22]"

lemma escape_letters_cases:
  "c \<in> set escape_letters \<Longrightarrow>
     c = CHR ''d'' \<or> c = CHR ''D'' \<or> c = CHR ''w'' \<or> c = CHR ''W'' \<or> c = CHR ''s'' \<or>
     c = CHR ''S'' \<or> c = CHR ''A'' \<or> c = CHR ''Z'' \<or> c = CHR ''b'' \<or> c = CHR ''B'' \<or>
     c = CHR ''a'' \<or> c = CHR ''f'' \<or> c = CHR ''n'' \<or> c = CHR ''r'' \<or> c = CHR ''t'' \<or>
     c = CHR ''v'' \<or> c = CHR ''p'' \<or> c = CHR ''0'' \<or> c = CHR ''1'' \<or> c = CHR ''2'' \<or>
     c = CHR ''3'' \<or> c = CHR ''4'' \<or> c = CHR ''5'' \<or> c = CHR ''6'' \<or> c = CHR ''7'' \<or>
     c = CHR ''8'' \<or> c = CHR ''9'' \<or> c = CHR ''x'' \<or> c = CHR ''u'' \<or> c = CHR ''U'' \<or>
     c = CHR 0x5C \<or> c = CHR 0x27 \<or> c = CHR 0x22"
  by (simp add: escape_letters_def)

lemma init_backslash_other:
  "get_next_char inp idx = Inr (c, j) \<Longrightarrow> c \<notin> set escape_letters \<Longrightarrow>
   init_backslash inp idx in_set ws = Inr (new_Token\<lparr>type := CHARACTER, character := c\<rparr>, j, ws)"
  by (simp add: init_backslash_def escape_letters_def)

lemma init_backslash_type:
  assumes "init_backslash inp idx in_set ws = Inr (t, idx', ws')"
  shows "type t \<noteq> REPEAT"
proof -
  from assms obtain c j where g: "get_next_char inp idx = Inr (c, j)"
    unfolding init_backslash_def by (cases "get_next_char inp idx") auto
  have o: "process_octal inp j c = Inr (t, k) \<Longrightarrow> type t \<noteq> REPEAT" for k
    by (drule process_octal_type) simp
  have h: "process_hex inp j n = Inr (t, k) \<Longrightarrow> type t \<noteq> REPEAT" for k n
    by (drule process_hex_type) simp
  show ?thesis
  proof (cases "c \<in> set escape_letters")
    case False
    from init_backslash_other [OF g False] assms show ?thesis by auto
  next
    case True
    from escape_letters_cases [OF True] show ?thesis
      using assms o h unfolding init_backslash_def g
      by (elim disjE) (auto split: sum.splits if_splits)
  qed
qed

definition special_chars :: string where
  "special_chars = CHR 0x5C # ''[]-|*+?(){.^$''"

lemma special_chars_cases:
  "c \<in> set special_chars \<Longrightarrow>
     c = CHR 0x5C \<or> c = CHR ''['' \<or> c = CHR '']'' \<or> c = CHR ''-'' \<or> c = CHR ''|'' \<or>
     c = CHR ''*'' \<or> c = CHR ''+'' \<or> c = CHR ''?'' \<or> c = CHR ''('' \<or> c = CHR '')'' \<or>
     c = CHR ''{'' \<or> c = CHR ''.'' \<or> c = CHR ''^'' \<or> c = CHR ''$''"
  by (simp add: special_chars_def)

lemma init_switch_default:
  "inp ! idx \<notin> set special_chars \<Longrightarrow>
   init_switch inp idx in_set toks ws =
     Inr (new_Token\<lparr>type := CHARACTER, character := inp ! idx\<rparr>, idx, in_set, ws)"
  by (simp add: init_switch_def special_chars_def Let_def)

lemma init_switch_repeat_ok:
  assumes "init_switch inp idx in_set toks ws = Inr (t, idx', in_set', ws')"
  shows "repeat_ok t"
proof (cases "inp ! idx \<in> set special_chars")
  case False
  from init_switch_default [OF False] assms show ?thesis by (auto simp: repeat_ok_def)
next
  case True
  show ?thesis
  proof (cases "type t = REPEAT")
    case False
    then show ?thesis by (simp add: repeat_ok_def)
  next
    case rep: True
    from special_chars_cases [OF True] show ?thesis
      using assms rep unfolding init_switch_def Let_def
      by (elim disjE)
         (auto split: sum.splits if_splits
               dest: init_backslash_type process_extension_type process_repeat_ok)
  qed
qed

lemma init_loop_repeat_ok:
  "init_loop inp idx in_set sc = Inr sc' \<Longrightarrow> \<forall>t\<in>set (tokens sc). repeat_ok t
     \<Longrightarrow> \<forall>t\<in>set (tokens sc'). repeat_ok t"
proof (induction inp idx in_set sc rule: init_loop.induct)
  case (1 inp idx in_set sc)
  show ?case
  proof (cases "idx < length inp")
    case False
    with "1.prems" show ?thesis by (subst (asm) init_loop.simps) simp
  next
    case True
    with "1.prems"(1) obtain t j b ws where
      s: "init_switch inp idx in_set (tokens sc) (warnings sc) = Inr (t, j, b, ws)" and
      r: "init_loop inp (j + 1) b (sc\<lparr>tokens := tokens sc @ [t], warnings := ws\<rparr>) = Inr sc'"
      by (subst (asm) init_loop.simps) (auto split: sum.splits)
    from init_switch_repeat_ok [OF s] "1.prems"(2)
    have "\<forall>x\<in>set (tokens (sc\<lparr>tokens := tokens sc @ [t], warnings := ws\<rparr>)). repeat_ok x"
      by simp
    with "1.IH" [OF True s refl refl refl r] show ?thesis .
  qed
qed

section \<open>Repeat quantifiers that end with the input\<close>

text \<open>
  C1.  The claim: a quantifier that the end of the input cuts short, as in \<open>a{3\<close>, is
  rolled back to a literal \<open>{\<close> and never raises the premature-end error.  The source
  reads every character of the quantifier through \<open>get_next_char\<close> and has no handler
  for its exception: scanning \<open>a{3\<close> ends with "Input string ended prematurely", and
  so does the repeat parser on every input that stops after the digits.
\<close>

theorem truncated_repeat_raises:
  "scan ''a{3'' = Inl InputEndedPrematurely \<and>
   process_repeat ''a{3'' 1 = Inl InputEndedPrematurely \<and>
   scan ''a{'' = Inl InputEndedPrematurely \<and>
   scan ''a{3,'' = Inl InputEndedPrematurely"
  by code_simp

section \<open>The bounds of finished repeat tokens\<close>

text \<open>
  C2 as claimed: no accessor ever hands \<open>-1\<close> to a consumer, and for \<open>{n,}\<close> the upper
  bound returned is a marker other than \<open>-1\<close>.  In the source \<open>-1\<close> is that marker:
  \<open>process_repeat\<close> stores it ("use -1 to represent no upper bound") and returns the token
  at once, and \<open>get_repeat_upper\<close> returns the stored field.  After scanning \<open>a{3,}\<close> and
  advancing to the repeat token, \<open>get_repeat_upper\<close> returns \<open>-1\<close>.
\<close>

theorem unbounded_repeat_upper_is_minus_one:
  "on_scan ''a{3,}'' (get_repeat_upper \<circ> advance) = Inr (Inr (- 1))"
  by code_simp

text \<open>
  C2 as amended: for every pattern that scans successfully and every \<open>REPEAT\<close> token of
  the finished stream, \<open>get_repeat_lower\<close> returns a value that is at least 0, and
  \<open>get_repeat_upper\<close> returns either \<open>-1\<close> (the marker for "unbounded") or a value that is
  at least 1 and at least the lower bound.
\<close>

theorem repeat_bounds_of_scan:
  assumes "scan p = Inr sc" and "i < length (tokens sc)" and "type (tokens sc ! i) = REPEAT"
  shows "\<exists>l u. get_repeat_lower (sc\<lparr>index := i\<rparr>) = Inr l \<and>
               get_repeat_upper (sc\<lparr>index := i\<rparr>) = Inr u \<and>
               0 \<le> l \<and> (u = - 1 \<or> (1 \<le> u \<and> l \<le> u))"
proof -
  from assms(1) obtain sc0 where l: "init_loop p 0 False new_Scanner = Inr sc0"
    and sc: "sc = sc0\<lparr>index := 0\<rparr>"
    by (auto simp: scan_def init_def split: sum.splits)
  have "\<forall>t\<in>set (tokens sc0). repeat_ok t"
    by (rule init_loop_repeat_ok [OF l]) (simp add: new_Scanner_def)
  with sc assms(2) have "repeat_ok (tokens sc ! i)" by simp
  with assms(2,3) show ?thesis
    by (simp add: repeat_ok_def get_repeat_lower_def get_repeat_upper_def get_type_def)
qed

theorem repeat_bounds_of_scan_witness:
  "\<exists>sc. scan ''a{2,5}'' = Inr sc \<and> 1 < length (tokens sc) \<and> type (tokens sc ! 1) = REPEAT \<and>
     (\<exists>l u. get_repeat_lower (sc\<lparr>index := 1\<rparr>) = Inr l \<and>
               get_repeat_upper (sc\<lparr>index := 1\<rparr>) = Inr u \<and>
               0 \<le> l \<and> (u = - 1 \<or> (1 \<le> u \<and> l \<le> u)))"
proof -
  obtain sc where s: "scan ''a{2,5}'' = Inr sc"
    and n: "1 < length (tokens sc)" and t: "type (tokens sc ! 1) = REPEAT"
  proof
    show "scan ''a{2,5}'' =
      Inr \<lparr>tokens = [new_Token\<lparr>type := CHARACTER, character := CHR ''a''\<rparr>,
                     new_Token\<lparr>type := REPEAT, character := CHR ''{'',
                                 repeat_lower := 2, repeat_upper := 5\<rparr>],
           index = 0, warnings = []\<rparr>"
      by code_simp
  qed simp_all
  from repeat_bounds_of_scan [OF s n t] s n t show ?thesis by blast
qed

section \<open>The lookahead predicates at the edge of the stream\<close>

text \<open>
  C3.  The claim: with the cursor at or past the end, \<open>is_concat\<close> returns false before
  it indexes the vector.  The source evaluates \<open>tokens[index - 1]\<close> in its first
  statement and tests \<open>index >= tokens.size()\<close> only afterwards (\<open>get_type\<close>, called in
  between, does test the index before it reads).  For the empty pattern the stream is
  empty, the cursor 0 is at its end, and the first statement reads outside the vector.
\<close>

theorem is_concat_reads_before_check:
  "on_scan [] is_concat = Inr (Inl OutOfBounds) \<and> on_scan [] get_type = Inr ERR"
  by code_simp

text \<open>
  C4.  The claim: \<open>is_char_range\<close> returns false, without reading outside the vector,
  whenever fewer than three tokens remain, also for streams of fewer than three tokens.
  The guard \<open>index > tokens.size() - 3\<close> is unsigned: for a stream of fewer than three
  tokens the right-hand side wraps around to a huge number, the guard lets every cursor
  through, and \<open>tokens[index+1]\<close> is read past the end.  This happens for the stream of
  \<open>[a\<close> with the cursor on \<open>a\<close>, and for the stream of \<open>a\<close> at the first position.
\<close>

theorem is_char_range_short_stream:
  "on_scan ''[a'' (is_char_range \<circ> advance) = Inr (Inl OutOfBounds) \<and>
   on_scan ''a'' is_char_range = Inr (Inl OutOfBounds)"
  by code_simp

section \<open>A quantifier with an embedded space\<close>

text \<open>
  C9 as claimed: scanning \<open>{3, 4}\<close> yields five literal tokens.  The text has six
  characters and the scanner yields six tokens.
\<close>

theorem spaced_quantifier_not_five_tokens:
  "on_scan ''{3, 4}'' (length \<circ> tokens) \<noteq> Inr 5"
  by code_simp

text \<open>
  C9 as amended: scanning \<open>{3, 4}\<close> outside a bracket set, alone or as in \<open>a{3, 4}\<close>, rolls
  the quantifier back because of the space and yields the six literal \<open>CHARACTER\<close>
  tokens for \<open>{\<close>, \<open>3\<close>, \<open>,\<close>, the space, \<open>4\<close> and \<open>}\<close>, one per character, with no
  \<open>REPEAT\<close> token, no error and no warning.
\<close>

theorem spaced_quantifier_is_literal:
  "on_scan ''{3, 4}'' (map type \<circ> tokens) = Inr (replicate 6 CHARACTER) \<and>
   on_scan ''{3, 4}'' (map character \<circ> tokens) = Inr ''{3, 4}'' \<and>
   on_scan ''{3, 4}'' warnings = Inr [] \<and>
   on_scan ''a{3, 4}'' (map type \<circ> tokens) = Inr (replicate 7 CHARACTER) \<and>
   on_scan ''a{3, 4}'' (map character \<circ> tokens) = Inr ''a{3, 4}'' \<and>
   on_scan ''a{3, 4}'' warnings = Inr []"
  by code_simp

section \<open>Quantifiers with an upper bound only\<close>

text \<open>
  C5 as claimed: every quantifier \<open>{,m}\<close> yields a \<open>REPEAT\<close> token with bounds 0 and \<open>m\<close>.
  For \<open>m = 0\<close> the source throws: the missing lower bound is first set to 0 and the
  test for an upper bound of zero then raises "pointless repeat quantifier {0,0}" (the
  comment in \<open>process_repeat\<close> lists \<open>{,0}\<close> among the quantifiers it aborts on).
\<close>

theorem upper_zero_repeat_raises:
  "process_repeat ''{,0}'' 0 = Inl PointlessRepeat00 \<and> scan ''a{,0}'' = Inl PointlessRepeat00"
  by code_simp

text \<open>
  A run of digits that ends at a character which is not a digit is read in full by the
  digit loop.
\<close>

lemma read_digits_run:
  "\<forall>d\<in>set ds. isdigit d \<Longrightarrow> \<not> isdigit e \<Longrightarrow>
   read_digits (xs @ ds @ e # rest) (length xs) cs (hd (ds @ [e])) =
     Inr (cs @ ds, e, length xs + length ds)"
proof (induction ds arbitrary: xs cs)
  case Nil
  then show ?case by (subst read_digits.simps) simp
next
  case (Cons d ds)
  have g: "get_next_char (xs @ d # ds @ e # rest) (length xs) =
             Inr (hd (ds @ [e]), Suc (length xs))"
    by (cases ds) (simp_all add: get_next_char_def nth_append)
  from Cons.prems have "isdigit d" by simp
  moreover from Cons.prems Cons.IH [of "xs @ [d]" "cs @ [d]"]
  have "read_digits (xs @ (d # ds) @ e # rest) (length (xs @ [d])) (cs @ [d]) (hd (ds @ [e])) =
          Inr (cs @ d # ds, e, length xs + length (d # ds))"
    by simp
  ultimately show ?case
    by (subst read_digits.simps) (simp add: g)
qed

lemma not_digit_punct: "\<not> isdigit (CHR '','')" "\<not> isdigit (CHR ''}'')"
  by (simp_all add: isdigit_def char_int_def)

text \<open>
  C5 as amended: for every quantifier \<open>{,m}\<close> outside a bracket set, where \<open>m\<close> is written
  with one or more decimal digits and has a value from 1 up to \<open>INT_MAX\<close>, the repeat
  parser succeeds, stops on the closing brace and returns a \<open>REPEAT\<close> token with lower
  bound 0 and upper bound \<open>m\<close>; \<open>{,0}\<close> is a hard error.
\<close>

theorem upper_only_repeat:
  assumes "ds \<noteq> []" and "\<forall>d\<in>set ds. isdigit d"
    and "1 \<le> decimal_value ds" and "decimal_value ds \<le> INT_MAX"
  shows "\<exists>t. process_repeat (pre @ ''{,'' @ ds @ ''}'' @ post) (length pre)
               = Inr (t, length pre + length ds + 2) \<and>
             type t = REPEAT \<and> repeat_lower t = 0 \<and> repeat_upper t = decimal_value ds"
proof -
  let ?inp = "pre @ ''{,'' @ ds @ ''}'' @ post"
  have g0: "get_next_char ?inp (length pre) = Inr (CHR '','', length pre + 1)"
    by (simp add: get_next_char_def nth_append)
  have r0: "read_digits ?inp (length pre + 1) [] (CHR '','') = Inr ([], CHR '','', length pre + 1)"
    by (subst read_digits.simps) (simp add: not_digit_punct)
  from assms(1) have g1: "get_next_char ?inp (length pre + 1) = Inr (hd (ds @ ''}''), length pre + 2)"
    by (cases ds) (simp_all add: get_next_char_def nth_append)
  have "read_digits ((pre @ ''{,'') @ ds @ CHR ''}'' # post) (length (pre @ ''{,'')) []
          (hd (ds @ ''}'')) = Inr ([] @ ds, CHR ''}'', length (pre @ ''{,'') + length ds)"
    by (rule read_digits_run [OF assms(2) not_digit_punct(2)])
  then have r1: "read_digits ?inp (length pre + 2) [] (hd (ds @ ''}'')) =
                   Inr (ds, CHR ''}'', length pre + length ds + 2)"
    by simp
  from assms(3,4) have e: "extract_int ds = decimal_value ds"
    by (simp add: extract_int_def)
  from assms(1,3) show ?thesis
    unfolding process_repeat_def Let_def g0 r0 g1 r1 sum.case prod.case
    by (simp add: e)
qed

theorem upper_only_repeat_witness:
  "''12'' \<noteq> [] \<and> isdigit (CHR ''1'') \<and> isdigit (CHR ''2'') \<and> 1 \<le> decimal_value ''12'' \<and>
   decimal_value ''12'' \<le> INT_MAX \<and>
   (\<exists>t. process_repeat (''a'' @ ''{,'' @ ''12'' @ ''}'' @ ''b'') (length ''a'')
               = Inr (t, length ''a'' + length ''12'' + 2) \<and>
         type t = REPEAT \<and> repeat_lower t = 0 \<and> repeat_upper t = 12)"
proof -
  have h: "''12'' \<noteq> []" "\<forall>d\<in>set ''12''. isdigit d" "1 \<le> decimal_value ''12''"
    "decimal_value ''12'' \<le> INT_MAX" "decimal_value ''12'' = 12"
    by (simp_all add: isdigit_def char_int_def decimal_value_def INT_MAX_def)
  from upper_only_repeat [OF h(1-4), of "''a''" "''b''"] h show ?thesis by simp
qed

section \<open>Patterns in which every character is one token\<close>






section \<open>Caret and dollar\<close>




section \<open>Unbalanced brackets and parentheses\<close>




section \<open>Patterns without brackets, braces, parentheses and backslashes\<close>

text \<open>
  C6 as claimed: in a pattern without backslash, bracket, brace and parenthesis every
  character becomes a literal \<open>CHARACTER\<close> token.  Such a pattern may still contain the
  operators \<open>| * + ? . ^ $\<close>, which the driver turns into tokens of other kinds, and a
  \<open>?\<close> that follows \<open>*\<close>, \<open>+\<close> or \<open>?\<close> yields no token at all.
\<close>

theorem operators_are_not_literal:
  "on_scan ''a*'' (map type \<circ> tokens) = Inr [CHARACTER, STAR] \<and>
   on_scan ''a*?'' (map type \<circ> tokens) = Inr [CHARACTER, STAR]"
  by code_simp

text \<open>
  The characters that the claim excludes, and the operator characters that remain.
\<close>

definition bracket_chars :: string where
  "bracket_chars = CHR 0x5C # ''[]{}()''"

definition operator_chars :: string where
  "operator_chars = ''|*+?.^$''"

text \<open>
  One iteration of the loop outside a set, when the last token pushed is not a
  \<open>LEFT_PAREN\<close> and the character is none of the excluded ones.
\<close>

lemma init_switch_plain:
  assumes "inp ! idx \<notin> set bracket_chars"
    and "toks \<noteq> [] \<longrightarrow> type (last toks) \<noteq> LEFT_PAREN"
  shows "\<exists>t j. init_switch inp idx False toks ws = Inr (t, j, False, ws) \<and>
           type t \<noteq> LEFT_PAREN \<and>
           (if inp ! idx \<in> set operator_chars
            then type t \<noteq> CHARACTER \<and>
                 (j = idx \<or> j = idx + 1 \<and> idx + 1 < length inp \<and> inp ! (idx + 1) = CHR ''?'')
            else t = new_Token\<lparr>type := CHARACTER, character := inp ! idx\<rparr> \<and> j = idx)"
proof (cases "inp ! idx \<in> set special_chars")
  case False
  then have "inp ! idx \<notin> set operator_chars"
    by (simp add: special_chars_def operator_chars_def)
  with init_switch_default [OF False] show ?thesis by simp
next
  case True
  from special_chars_cases [OF True] assms show ?thesis
    by (elim disjE)
       (auto simp: init_switch_def Let_def bracket_chars_def operator_chars_def)
qed

lemma init_loop_plain:
  assumes "\<forall>k<length inp. inp ! k \<notin> set bracket_chars"
    and "\<not> in_set"
    and "tokens sc \<noteq> [] \<longrightarrow> type (last (tokens sc)) \<noteq> LEFT_PAREN"
  shows "\<exists>sc'. init_loop inp idx in_set sc = Inr sc' \<and> warnings sc' = warnings sc \<and>
           map character (filter (\<lambda>t. type t = CHARACTER) (tokens sc')) =
             map character (filter (\<lambda>t. type t = CHARACTER) (tokens sc)) @
             filter (\<lambda>c. c \<notin> set operator_chars) (drop idx inp) \<and>
           ((\<forall>k<length inp. inp ! k \<notin> set operator_chars) \<longrightarrow>
              tokens sc' = tokens sc @
                map (\<lambda>c. new_Token\<lparr>type := CHARACTER, character := c\<rparr>) (drop idx inp))"
  using assms
proof (induction inp idx in_set sc rule: init_loop.induct)
  case (1 inp idx in_set sc)
  show ?case
  proof (cases "idx < length inp")
    case False
    then show ?thesis by (subst init_loop.simps) simp
  next
    case True
    from "1.prems"(2) have f: "in_set = False" by simp
    from True "1.prems"(1) have c: "inp ! idx \<notin> set bracket_chars" by simp
    from init_switch_plain [OF c "1.prems"(3), of "warnings sc"] obtain t j where
      s: "init_switch inp idx in_set (tokens sc) (warnings sc) = Inr (t, j, in_set, warnings sc)"
      and lp: "type t \<noteq> LEFT_PAREN"
      and k: "if inp ! idx \<in> set operator_chars
              then type t \<noteq> CHARACTER \<and>
                   (j = idx \<or> j = idx + 1 \<and> idx + 1 < length inp \<and> inp ! (idx + 1) = CHR ''?'')
              else t = new_Token\<lparr>type := CHARACTER, character := inp ! idx\<rparr> \<and> j = idx"
      unfolding f by blast
    let ?sc = "sc\<lparr>tokens := tokens sc @ [t], warnings := warnings sc\<rparr>"
    from lp have l: "tokens ?sc \<noteq> [] \<longrightarrow> type (last (tokens ?sc)) \<noteq> LEFT_PAREN" by simp
    from "1.IH" [OF True s refl refl refl "1.prems"(1,2) l] obtain sc' where
      r: "init_loop inp (j + 1) in_set ?sc = Inr sc'" and w: "warnings sc' = warnings sc"
      and m: "map character (filter (\<lambda>t. type t = CHARACTER) (tokens sc')) =
               map character (filter (\<lambda>t. type t = CHARACTER) (tokens sc @ [t])) @
               filter (\<lambda>c. c \<notin> set operator_chars) (drop (j + 1) inp)"
      and a: "(\<forall>k<length inp. inp ! k \<notin> set operator_chars) \<longrightarrow>
               tokens sc' = (tokens sc @ [t]) @
                 map (\<lambda>c. new_Token\<lparr>type := CHARACTER, character := c\<rparr>) (drop (j + 1) inp)"
      by auto
    from True s r have e: "init_loop inp idx in_set sc = Inr sc'"
      by (subst init_loop.simps) simp
    have m': "map character (filter (\<lambda>t. type t = CHARACTER) (tokens sc')) =
               map character (filter (\<lambda>t. type t = CHARACTER) (tokens sc)) @
               filter (\<lambda>c. c \<notin> set operator_chars) (drop idx inp)"
    proof (cases "inp ! idx \<in> set operator_chars")
      case False
      with k have "t = new_Token\<lparr>type := CHARACTER, character := inp ! idx\<rparr>" "j = idx" by simp_all
      with m False True show ?thesis
        by (simp add: Cons_nth_drop_Suc [symmetric])
    next
      case op: True
      with k have nt: "type t \<noteq> CHARACTER"
        and j: "j = idx \<or> j = idx + 1 \<and> idx + 1 < length inp \<and> inp ! (idx + 1) = CHR ''?''"
        by simp_all
      have q: "CHR ''?'' \<in> set operator_chars" by (simp add: operator_chars_def)
      from j have "filter (\<lambda>c. c \<notin> set operator_chars) (drop idx inp) =
                   filter (\<lambda>c. c \<notin> set operator_chars) (drop (j + 1) inp)"
      proof
        assume "j = idx"
        with True op show ?thesis by (simp add: Cons_nth_drop_Suc [symmetric])
      next
        assume h: "j = idx + 1 \<and> idx + 1 < length inp \<and> inp ! (idx + 1) = CHR ''?''"
        with True op have "filter (\<lambda>c. c \<notin> set operator_chars) (drop idx inp) =
            filter (\<lambda>c. c \<notin> set operator_chars) (drop (Suc idx) inp)"
          by (simp add: Cons_nth_drop_Suc [symmetric])
        also from h q have "\<dots> = filter (\<lambda>c. c \<notin> set operator_chars) (drop (Suc (Suc idx)) inp)"
          by (simp add: Cons_nth_drop_Suc [symmetric])
        finally show ?thesis using h by simp
      qed
      with m nt show ?thesis by simp
    qed
    have a': "(\<forall>k<length inp. inp ! k \<notin> set operator_chars) \<longrightarrow>
               tokens sc' = tokens sc @
                 map (\<lambda>c. new_Token\<lparr>type := CHARACTER, character := c\<rparr>) (drop idx inp)"
    proof
      assume n: "\<forall>k<length inp. inp ! k \<notin> set operator_chars"
      with True have "inp ! idx \<notin> set operator_chars" by simp
      with k have "t = new_Token\<lparr>type := CHARACTER, character := inp ! idx\<rparr>" "j = idx" by simp_all
      with a n True show "tokens sc' = tokens sc @
          map (\<lambda>c. new_Token\<lparr>type := CHARACTER, character := c\<rparr>) (drop idx inp)"
        by (simp add: Cons_nth_drop_Suc [symmetric])
    qed
    from e w m' a' show ?thesis by blast
  qed
qed

text \<open>
  C6 as amended: for every pattern with no backslash, no square bracket, no curly brace
  and no parenthesis, scanning succeeds without error and without warning; the
  \<open>CHARACTER\<close> tokens of the stream are, in order, exactly the characters of the pattern
  other than the operators \<open>| * + ? . ^ $\<close>, each with the character as its payload; and
  when the pattern contains none of these operators, every character of the pattern
  maps to exactly one \<open>CHARACTER\<close> token whose payload is that character.
\<close>

theorem plain_pattern_scan:
  assumes "set p \<inter> set bracket_chars = {}"
  shows "\<exists>sc. scan p = Inr sc \<and> warnings sc = [] \<and>
           map character (filter (\<lambda>t. type t = CHARACTER) (tokens sc)) =
             filter (\<lambda>c. c \<notin> set operator_chars) p \<and>
           (set p \<inter> set operator_chars = {} \<longrightarrow>
              map type (tokens sc) = replicate (length p) CHARACTER \<and>
              map character (tokens sc) = p)"
proof -
  from assms have b: "\<forall>k<length p. p ! k \<notin> set bracket_chars"
    by (meson disjoint_iff nth_mem)
  have "tokens new_Scanner \<noteq> [] \<longrightarrow> type (last (tokens new_Scanner)) \<noteq> LEFT_PAREN"
    by (simp add: new_Scanner_def)
  from init_loop_plain [OF b _ this, of False 0] obtain sc' where
    r: "init_loop p 0 False new_Scanner = Inr sc'" and w: "warnings sc' = []"
    and m: "map character (filter (\<lambda>t. type t = CHARACTER) (tokens sc')) =
              filter (\<lambda>c. c \<notin> set operator_chars) p"
    and a: "(\<forall>k<length p. p ! k \<notin> set operator_chars) \<longrightarrow>
              tokens sc' = map (\<lambda>c. new_Token\<lparr>type := CHARACTER, character := c\<rparr>) p"
    by (auto simp: new_Scanner_def)
  have "set p \<inter> set operator_chars = {} \<longrightarrow>
          map type (tokens sc') = replicate (length p) CHARACTER \<and> map character (tokens sc') = p"
  proof
    assume "set p \<inter> set operator_chars = {}"
    then have "\<forall>k<length p. p ! k \<notin> set operator_chars"
      by (meson disjoint_iff nth_mem)
    with a have "tokens sc' = map (\<lambda>c. new_Token\<lparr>type := CHARACTER, character := c\<rparr>) p"
      by simp
    then show "map type (tokens sc') = replicate (length p) CHARACTER \<and>
               map character (tokens sc') = p"
      by (simp add: map_replicate_const comp_def)
  qed
  with r w m show ?thesis
    by (simp add: scan_def init_def)
qed

theorem plain_pattern_scan_witness:
  "set ''ab-c'' \<inter> set bracket_chars = {} \<and> set ''ab-c'' \<inter> set operator_chars = {} \<and>
   (\<exists>sc. scan ''ab-c'' = Inr sc \<and> warnings sc = [] \<and>
         map type (tokens sc) = replicate (length ''ab-c'') CHARACTER \<and>
         map character (tokens sc) = ''ab-c'')"
proof -
  have b: "set ''ab-c'' \<inter> set bracket_chars = {}"
    by (simp add: bracket_chars_def)
  have o: "set ''ab-c'' \<inter> set operator_chars = {}"
    by (simp add: operator_chars_def)
  from plain_pattern_scan [OF b] obtain sc where
    a: "scan ''ab-c'' = Inr sc \<and> warnings sc = [] \<and>
        map character (filter (\<lambda>t. type t = CHARACTER) (tokens sc)) =
          filter (\<lambda>c. c \<notin> set operator_chars) ''ab-c'' \<and>
        (set ''ab-c'' \<inter> set operator_chars = {} \<longrightarrow>
           map type (tokens sc) = replicate (length ''ab-c'') CHARACTER \<and>
           map character (tokens sc) = ''ab-c'')" ..
  from a have s: "scan ''ab-c'' = Inr sc" by (rule conjunct1)
  from a have w: "warnings sc = []" by (rule conjunct2 [THEN conjunct1])
  from a have "set ''ab-c'' \<inter> set operator_chars = {} \<longrightarrow>
           map type (tokens sc) = replicate (length ''ab-c'') CHARACTER \<and>
           map character (tokens sc) = ''ab-c''"
    by (rule conjunct2 [THEN conjunct2, THEN conjunct2])
  from this o have m: "map type (tokens sc) = replicate (length ''ab-c'') CHARACTER \<and>
           map character (tokens sc) = ''ab-c''"
    by (rule mp)
  have e: "\<exists>sc. scan ''ab-c'' = Inr sc \<and> warnings sc = [] \<and>
         map type (tokens sc) = replicate (length ''ab-c'') CHARACTER \<and>
         map character (tokens sc) = ''ab-c''"
  proof (rule exI)
    show "scan ''ab-c'' = Inr sc \<and> warnings sc = [] \<and>
         map type (tokens sc) = replicate (length ''ab-c'') CHARACTER \<and>
         map character (tokens sc) = ''ab-c''"
      by (rule conjI [OF s conjI [OF w m]])
  qed
  show ?thesis by (rule conjI [OF b conjI [OF o e]])
qed

section \<open>Hexadecimal escapes\<close>

text \<open>
  The value of a hexadecimal digit as the specification words it: the digits \<open>0\<close> to \<open>9\<close>
  and the letters \<open>a\<close> to \<open>f\<close> in either case.  It agrees with the comparisons that
  \<open>process_hex\<close> makes.
\<close>

definition hex_digit_value :: "char \<Rightarrow> int option" where
  "hex_digit_value c =
     map_of (zip ''0123456789'' [0, 1, 2, 3, 4, 5, 6, 7, 8, 9] @
             zip ''ABCDEF'' [10, 11, 12, 13, 14, 15] @
             zip ''abcdef'' [10, 11, 12, 13, 14, 15]) c"

lemma hex_digit_all: "hex_digit c = hex_digit_value c"
proof (cases "c \<in> set ''0123456789ABCDEFabcdef''")
  case True
  then have "c = CHR ''0'' \<or> c = CHR ''1'' \<or> c = CHR ''2'' \<or> c = CHR ''3'' \<or> c = CHR ''4'' \<or>
    c = CHR ''5'' \<or> c = CHR ''6'' \<or> c = CHR ''7'' \<or> c = CHR ''8'' \<or> c = CHR ''9'' \<or>
    c = CHR ''A'' \<or> c = CHR ''B'' \<or> c = CHR ''C'' \<or> c = CHR ''D'' \<or> c = CHR ''E'' \<or>
    c = CHR ''F'' \<or> c = CHR ''a'' \<or> c = CHR ''b'' \<or> c = CHR ''c'' \<or> c = CHR ''d'' \<or>
    c = CHR ''e'' \<or> c = CHR ''f''"
    by simp
  then show ?thesis
    by (elim disjE) (simp_all add: hex_digit_def hex_digit_value_def char_int_def)
next
  case False
  then have v: "hex_digit_value c = None"
    by (simp add: hex_digit_value_def)
  from False have "\<forall>d\<in>set ''0123456789ABCDEFabcdef''. (of_char c :: nat) \<noteq> of_char d"
    by auto
  then have "(of_char c :: nat) \<notin> {48..57} \<union> {65..70} \<union> {97..102}"
    by (simp del: of_char_eq_iff) arith
  moreover have "(of_char c :: nat) < 256" by simp
  ultimately have "hex_digit c = None"
    by (simp add: hex_digit_def char_int_def del: nat_of_char_less_256)
  with v show ?thesis by simp
qed

text \<open>
  The loop over the digits to the left of the last two accepts them exactly if all of
  them are the character \<open>0\<close>.
\<close>

lemma hex_extra_digits_run:
  "int (length zs) = n - i \<Longrightarrow>
   hex_extra_digits (pre @ x # zs @ rest) (length pre) i n =
     (if \<exists>z\<in>set zs. z \<noteq> CHR ''0'' then Inl (UnsupportedHexNumber n)
      else Inr (length pre + length zs))"
proof (induction zs arbitrary: pre x i)
  case Nil
  then show ?case by (subst hex_extra_digits.simps) simp
next
  case (Cons z zs)
  from Cons.prems have l: "i < n" and l': "int (length zs) = n - (i + 1)" by simp_all
  have g: "get_next_char (pre @ x # y # ys) (length pre) = Inr (y, Suc (length pre))" for y ys
    by (simp add: get_next_char_def nth_append)
  from Cons.IH [OF l', of "pre @ [x]" z]
  have r: "hex_extra_digits (pre @ x # z # zs @ rest) (Suc (length pre)) (i + 1) n =
     (if \<exists>z\<in>set zs. z \<noteq> CHR ''0'' then Inl (UnsupportedHexNumber n)
      else Inr (Suc (length pre + length zs)))"
    by simp
  show ?case
  proof (cases "z = CHR ''0''")
    case True
    with l r show ?thesis
      by (subst hex_extra_digits.simps) (simp add: g)
  next
    case False
    with l show ?thesis
      by (subst hex_extra_digits.simps) (simp add: g)
  qed
qed

text \<open>
  C7.  \<open>process_hex\<close> is called with \<open>idx\<close> on the letter \<open>x\<close>, \<open>u\<close> or \<open>U\<close> and the digit
  count \<open>n\<close> (2, 4 or 8).  When the \<open>n\<close> characters after the letter are there (\<open>zs\<close>, the
  \<open>n - 2\<close> left ones, then \<open>d1\<close> and \<open>d2\<close>): a left digit other than \<open>0\<close> is the error that
  names \<open>n\<close>; otherwise \<open>d1\<close> and \<open>d2\<close> must be hexadecimal digits, else the error names
  the offending character; their value \<open>16 * h1 + h2\<close> must lie in 32..126, else the
  error names the value; and on success the token is a \<open>CHARACTER\<close> of that value, with
  \<open>idx\<close> on the last digit.  The escape \<open>\x41\<close> scans to the literal \<open>A\<close>, and \<open>\x1F\<close>
  raises the error for the value 31.
\<close>

theorem hex_escape_decoding:
  assumes "n = 2 \<or> n = 4 \<or> n = 8" and "int (length zs) = n - 2"
  shows "map_sum id (\<lambda>(t, j). (type t, character t, j))
           (process_hex (pre @ x # zs @ d1 # d2 # post) (length pre) n) =
         (if \<exists>z\<in>set zs. z \<noteq> CHR ''0'' then Inl (UnsupportedHexNumber n)
          else case hex_digit_value d1 of
                 None \<Rightarrow> Inl (InvalidHexDigit d1)
               | Some h1 \<Rightarrow>
                   (case hex_digit_value d2 of
                      None \<Rightarrow> Inl (InvalidHexDigit d2)
                    | Some h2 \<Rightarrow>
                        if h1 * 16 + h2 < 32 \<or> 126 < h1 * 16 + h2
                        then Inl (UnsupportedHexValue (h1 * 16 + h2))
                        else Inr (CHARACTER, char_of (h1 * 16 + h2), length pre + nat n))) \<and>
         on_scan [CHR 0x5C, CHR ''x'', CHR ''4'', CHR ''1''] (map type \<circ> tokens) = Inr [CHARACTER] \<and>
         on_scan [CHR 0x5C, CHR ''x'', CHR ''4'', CHR ''1''] (map character \<circ> tokens) = Inr ''A'' \<and>
         scan [CHR 0x5C, CHR ''x'', CHR ''1'', CHR ''F''] = Inl (UnsupportedHexValue 31)"
proof -
  define inp where "inp = pre @ x # zs @ d1 # d2 # post"
  define k where "k = length pre + length zs"
  from assms(2) have n: "length pre + nat n = k + 2" by (simp add: k_def)
  have e: "hex_extra_digits inp (length pre) 2 n =
     (if \<exists>z\<in>set zs. z \<noteq> CHR ''0'' then Inl (UnsupportedHexNumber n) else Inr k)"
    unfolding inp_def k_def by (rule hex_extra_digits_run [OF assms(2)])
  have i1: "inp ! (k + 1) = d1" and i2: "inp ! (k + 2) = d2" and len: "k + 2 < length inp"
    by (simp_all add: inp_def k_def nth_append)
  from i1 len have g1: "get_next_char inp k = Inr (d1, k + 1)"
    by (simp add: get_next_char_def)
  from i2 len have g2: "get_next_char inp (k + 1) = Inr (d2, k + 2)"
    by (simp add: get_next_char_def)
  have general: "map_sum id (\<lambda>(t, j). (type t, character t, j)) (process_hex inp (length pre) n) =
         (if \<exists>z\<in>set zs. z \<noteq> CHR ''0'' then Inl (UnsupportedHexNumber n)
          else case hex_digit_value d1 of
                 None \<Rightarrow> Inl (InvalidHexDigit d1)
               | Some h1 \<Rightarrow>
                   (case hex_digit_value d2 of
                      None \<Rightarrow> Inl (InvalidHexDigit d2)
                    | Some h2 \<Rightarrow>
                        if h1 * 16 + h2 < 32 \<or> 126 < h1 * 16 + h2
                        then Inl (UnsupportedHexValue (h1 * 16 + h2))
                        else Inr (CHARACTER, char_of (h1 * 16 + h2), length pre + nat n)))"
  proof (cases "\<exists>z\<in>set zs. z \<noteq> CHR ''0''")
    case True
    then show ?thesis
      unfolding process_hex_def e by simp
  next
    case False
    then have e': "hex_extra_digits inp (length pre) 2 n = Inr k" using e by simp
    show ?thesis
      unfolding process_hex_def e' n
      by (cases "hex_digit_value d1"; cases "hex_digit_value d2")
         (simp_all add: False g1 g2 hex_digit_all Let_def del: One_nat_def)
  qed
  have "on_scan [CHR 0x5C, CHR ''x'', CHR ''4'', CHR ''1''] (map type \<circ> tokens) = Inr [CHARACTER] \<and>
        on_scan [CHR 0x5C, CHR ''x'', CHR ''4'', CHR ''1''] (map character \<circ> tokens) = Inr ''A'' \<and>
        scan [CHR 0x5C, CHR ''x'', CHR ''1'', CHR ''F''] = Inl (UnsupportedHexValue 31)"
    by code_simp
  with general show ?thesis unfolding inp_def by simp
qed

theorem hex_escape_decoding_witness:
  "int (length ''00'') = 4 - 2 \<and>
   map_sum id (\<lambda>(t, j). (type t, character t, j))
     (process_hex ([CHR 0x5C] @ CHR ''u'' # ''00'' @ CHR ''4'' # CHR ''1'' # ''z'')
        (length [CHR 0x5C]) 4) = Inr (CHARACTER, CHR ''A'', 5)"
proof -
  have h: "(4::int) = 2 \<or> (4::int) = 4 \<or> (4::int) = 8" "int (length ''00'') = 4 - 2"
    by simp_all
  from hex_escape_decoding [OF h, where pre = "[CHR 0x5C]" and x = "CHR ''u''"
      and ?d1.0 = "CHR ''4''" and ?d2.0 = "CHR ''1''" and post = "''z''"]
  show ?thesis by (simp add: hex_digit_value_def char_of_def)
qed

end
